theory Spec2Isabelle
  imports Complex_Main "HOL-Library.Word" "HOL-Library.Log_Nat"
begin

text \<open>
  A model of \<open>src/index.js\<close>: the uploads manager with its listeners, the callback
  that stores a file once read, the function that places an uploaded image on the
  canvas, and the handler of the download button. Definitions come first, each with
  the lines of the source it follows; the properties follow.
\<close>

section \<open>Values of the source language\<close>

text \<open>
  A JavaScript number is an IEEE 754 binary64 value. The finite ones are carried as
  the rational they denote; the two zeros are identified (the program never divides by
  a value that can be the negative zero).
\<close>

datatype number = Num rat | Infinity | NegInfinity | NaN

text \<open>The operator \<open>===\<close> on numbers: \<open>NaN\<close> equals nothing, itself included.\<close>

fun strict_eq :: "number \<Rightarrow> number \<Rightarrow> bool" where
  "strict_eq NaN _ = False"
| "strict_eq _ NaN = False"
| "strict_eq a b = (a = b)"

text \<open>
  Rounding to binary64, to nearest with ties to even. \<open>binade x\<close> is the exponent
  \<open>e\<close> with \<open>2 powi e \<le> \<bar>x\<bar> < 2 powi (e + 1)\<close>; below the normal range the
  spacing is that of the least normal binade, and a result of magnitude \<open>2 powi 1024\<close>
  is an infinity.
\<close>

definition binade :: "rat \<Rightarrow> int" where
  "binade x =
     (let (p, q) = quotient_of \<bar>x\<bar>; k = bitlen p - bitlen q
      in if 2 powi k \<le> \<bar>x\<bar> then k else k - 1)"

definition round_half_even :: "rat \<Rightarrow> int" where
  "round_half_even x =
     (let n = \<lfloor>x\<rfloor>; d = x - of_int n
      in if d < 1 / 2 then n else if 1 / 2 < d then n + 1 else if even n then n else n + 1)"

definition round64 :: "rat \<Rightarrow> number" where
  "round64 x =
     (if x = 0 then Num 0
      else
        let e = max (binade x) (- 1022);
            u = 2 powi (e - 52);
            y = of_int (round_half_even (x / u)) * u
        in if 2 powi 1024 \<le> \<bar>y\<bar> then (if 0 < x then Infinity else NegInfinity) else Num y)"

text \<open>The operators \<open>+\<close>, \<open>*\<close>, \<open>/\<close> and \<open>>\<close> on numbers, and \<open>Math.min\<close> of two.\<close>

fun add_number :: "number \<Rightarrow> number \<Rightarrow> number" where
  "add_number NaN _ = NaN"
| "add_number _ NaN = NaN"
| "add_number (Num a) (Num b) = round64 (a + b)"
| "add_number Infinity NegInfinity = NaN"
| "add_number NegInfinity Infinity = NaN"
| "add_number Infinity _ = Infinity"
| "add_number _ Infinity = Infinity"
| "add_number NegInfinity _ = NegInfinity"
| "add_number _ NegInfinity = NegInfinity"

fun negate :: "number \<Rightarrow> number" where
  "negate (Num a) = Num (- a)"
| "negate Infinity = NegInfinity"
| "negate NegInfinity = Infinity"
| "negate NaN = NaN"

fun mul_number :: "number \<Rightarrow> number \<Rightarrow> number" where
  "mul_number NaN _ = NaN"
| "mul_number _ NaN = NaN"
| "mul_number (Num a) (Num b) = round64 (a * b)"
| "mul_number (Num a) b = (if a = 0 then NaN else if 0 < a then b else negate b)"
| "mul_number a (Num b) = (if b = 0 then NaN else if 0 < b then a else negate a)"
| "mul_number Infinity b = b"
| "mul_number NegInfinity b = negate b"

fun div_number :: "number \<Rightarrow> number \<Rightarrow> number" where
  "div_number NaN _ = NaN"
| "div_number _ NaN = NaN"
| "div_number (Num a) (Num b) =
     (if b = 0 then (if a = 0 then NaN else if 0 < a then Infinity else NegInfinity)
      else round64 (a / b))"
| "div_number (Num a) _ = Num 0"
| "div_number a (Num b) = (if 0 \<le> b then a else negate a)"
| "div_number _ _ = NaN"

fun gt_number :: "number \<Rightarrow> number \<Rightarrow> bool" where
  "gt_number NaN _ = False"
| "gt_number _ NaN = False"
| "gt_number (Num a) (Num b) = (b < a)"
| "gt_number Infinity b = (b \<noteq> Infinity)"
| "gt_number a NegInfinity = (a \<noteq> NegInfinity)"
| "gt_number _ _ = False"

fun min_number :: "number \<Rightarrow> number \<Rightarrow> number" where
  "min_number NaN _ = NaN"
| "min_number _ NaN = NaN"
| "min_number a b = (if gt_number a b then b else a)"

text \<open>A string is its sequence of UTF-16 code units.\<close>

type_synonym code_unit = "16 word"
type_synonym jsstring = "code_unit list"

definition ascii :: "string \<Rightarrow> jsstring" where
  "ascii s = map (\<lambda>c. of_nat (of_char c)) s"

datatype error = TypeError | Thrown jsstring

section \<open>The uploads manager (index.js, lines 37 to 65)\<close>

text \<open>
  An upload is the object literal built in \<open>handleFileUpload\<close>. The argument of
  \<open>addUpload\<close> is whatever the caller passes: an upload or \<open>undefined\<close>.
\<close>

record upload =
  id_upload :: number
  name :: jsstring
  url :: jsstring

datatype entry = Undefined | Rec upload

text \<open>
  \<open>this.uploads\<close> is a reference to an array, and the same reference is what
  \<open>getUploads\<close> returns and what every listener is called with. Arrays of uploads
  therefore live in a heap of their own: \<open>heap\<close> gives the contents at each address
  and \<open>next_addr\<close> is the first address never allocated. The array of listeners is
  never handed out, so it is kept by value. A listener is a function object, known
  here by its identity only; \<open>calls\<close> records each invocation of a listener with
  the reference it received, oldest first. A listener is taken to return normally and
  not to call the manager while it runs, as the one listener of the program does
  (it passes its argument to \<open>setUploads\<close>).
\<close>

type_synonym addr = nat
type_synonym listener = nat

record manager =
  heap :: "addr \<Rightarrow> entry list"
  next_addr :: addr
  uploads :: addr
  listeners :: "listener list"
  calls :: "(listener \<times> addr) list"

definition init_manager :: manager where
  "init_manager =
     \<lparr>heap = (\<lambda>_. []), next_addr = 1, uploads = 0, listeners = [], calls = []\<rparr>"

definition getUploads :: "manager \<Rightarrow> addr" where
  "getUploads s = uploads s"

definition contents :: "manager \<Rightarrow> entry list" where
  "contents s = heap s (getUploads s)"

text \<open>A fresh array with the given elements; the arrays already there are kept.\<close>

definition alloc :: "entry list \<Rightarrow> manager \<Rightarrow> addr \<times> manager" where
  "alloc xs s =
     (next_addr s, s\<lparr>heap := (heap s)(next_addr s := xs), next_addr := Suc (next_addr s)\<rparr>)"

definition notifyListeners :: "manager \<Rightarrow> manager" where
  "notifyListeners s = s\<lparr>calls := calls s @ map (\<lambda>l. (l, uploads s)) (listeners s)\<rparr>"

definition addUpload :: "entry \<Rightarrow> manager \<Rightarrow> manager" where
  "addUpload upload s =
     (let (a, s1) = alloc (heap s (uploads s) @ [upload]) s
      in notifyListeners (s1\<lparr>uploads := a\<rparr>))"

text \<open>
  \<open>this.uploads.filter(upload => upload.id !== id)\<close>: reading \<open>id\<close> of
  \<open>undefined\<close> throws a TypeError, which ends the filter.
\<close>

fun filter_ids :: "number \<Rightarrow> entry list \<Rightarrow> error + entry list" where
  "filter_ids i [] = Inr []"
| "filter_ids i (Undefined # xs) = Inl TypeError"
| "filter_ids i (Rec r # xs) =
     (case filter_ids i xs of
        Inl e \<Rightarrow> Inl e
      | Inr ys \<Rightarrow> Inr (if \<not> strict_eq (id_upload r) i then Rec r # ys else ys))"

definition deleteUpload :: "number \<Rightarrow> manager \<Rightarrow> error + manager" where
  "deleteUpload i s =
     (case filter_ids i (heap s (uploads s)) of
        Inl e \<Rightarrow> Inl e
      | Inr ys \<Rightarrow>
          (let (a, s1) = alloc ys s
           in Inr (notifyListeners (s1\<lparr>uploads := a\<rparr>))))"

definition subscribe :: "listener \<Rightarrow> manager \<Rightarrow> manager" where
  "subscribe l s = s\<lparr>listeners := listeners s @ [l]\<rparr>"

text \<open>The function that \<open>subscribe\<close> returns, called.\<close>

definition unsubscribe :: "listener \<Rightarrow> manager \<Rightarrow> manager" where
  "unsubscribe l s = s\<lparr>listeners := filter (\<lambda>l'. l' \<noteq> l) (listeners s)\<rparr>"

text \<open>
  Calls on the manager, one after the other. An exception ends the sequence and leaves
  the manager as the failing call found it.
\<close>

datatype call =
  AddUpload entry | DeleteUpload number | Subscribe listener | Unsubscribe listener

fun perform :: "call \<Rightarrow> manager \<Rightarrow> error + manager" where
  "perform (AddUpload e) s = Inr (addUpload e s)"
| "perform (DeleteUpload i) s = deleteUpload i s"
| "perform (Subscribe l) s = Inr (subscribe l s)"
| "perform (Unsubscribe l) s = Inr (unsubscribe l s)"

fun exec :: "call list \<Rightarrow> manager \<Rightarrow> error option \<times> manager" where
  "exec [] s = (None, s)"
| "exec (c # cs) s =
     (case perform c s of Inl e \<Rightarrow> (Some e, s) | Inr s' \<Rightarrow> exec cs s')"

text \<open>The invocations of listeners made on the way from \<open>s\<close> to \<open>s'\<close>.\<close>

definition notified :: "manager \<Rightarrow> manager \<Rightarrow> (listener \<times> addr) list" where
  "notified s s' = drop (length (calls s)) (calls s')"

text \<open>Every reference to an array of uploads that has left the manager so far.\<close>

definition handed_out :: "manager \<Rightarrow> addr list" where
  "handed_out s = getUploads s # map snd (calls s)"

subsection \<open>Sequences of additions and removals of upload records\<close>

datatype op = Add upload | Remove number

fun call_of :: "op \<Rightarrow> call" where
  "call_of (Add r) = AddUpload (Rec r)"
| "call_of (Remove i) = DeleteUpload i"

text \<open>
  What the specification expects of \<open>list()\<close> after a sequence: the records added
  and not removed by a later operation, in the order of their insertion.
\<close>

fun removes :: "upload \<Rightarrow> op \<Rightarrow> bool" where
  "removes r (Remove i) = strict_eq (id_upload r) i"
| "removes r (Add _) = False"

fun surviving :: "op list \<Rightarrow> upload list" where
  "surviving [] = []"
| "surviving (Add r # ops) =
     (if list_ex (removes r) ops then surviving ops else r # surviving ops)"
| "surviving (Remove i # ops) = surviving ops"

fun added :: "op list \<Rightarrow> upload list" where
  "added [] = []"
| "added (Add r # ops) = r # added ops"
| "added (Remove i # ops) = added ops"

fun is_record :: "entry \<Rightarrow> bool" where
  "is_record Undefined = False"
| "is_record (Rec r) = True"

fun ids :: "entry list \<Rightarrow> number list" where
  "ids [] = []"
| "ids (Undefined # es) = ids es"
| "ids (Rec r # es) = id_upload r # ids es"

text \<open>What the callback of the filter in \<open>deleteUpload\<close> answers on an element it can read.\<close>

fun kept :: "number \<Rightarrow> entry \<Rightarrow> bool" where
  "kept i Undefined = True"
| "kept i (Rec r) = (\<not> strict_eq (id_upload r) i)"

text \<open>Every reference that has left the manager is an address already allocated.\<close>

definition allocated :: "manager \<Rightarrow> bool" where
  "allocated s = list_all (\<lambda>a. a < next_addr s) (handed_out s)"

subsection \<open>The callback of the file reader (index.js, lines 88 to 97)\<close>

text \<open>
  \<open>now\<close> is what \<open>Date.now()\<close> returns, an integral number of milliseconds, and
  \<open>random\<close> what \<open>Math.random()\<close> returns, a binary64 value in \<open>[0, 1)\<close>; \<open>fileName\<close>
  is \<open>file.name\<close> and \<open>dataUrl\<close> the result of the read.
\<close>

definition reader_onload :: "int \<Rightarrow> rat \<Rightarrow> jsstring \<Rightarrow> jsstring \<Rightarrow> manager \<Rightarrow> manager" where
  "reader_onload now random fileName dataUrl s =
     addUpload
       (Rec \<lparr>id_upload = add_number (Num (of_int now)) (Num random),
              name = fileName, url = dataUrl\<rparr>) s"

section \<open>Placing an image on the canvas (index.js, lines 23 to 34 and 103 to 140)\<close>

text \<open>
  A promise either is fulfilled, or is rejected, or stays pending for ever; an
  \<open>await\<close> on a promise of the last kind never returns.
\<close>

datatype 'a settled = Fulfilled 'a | Rejected error | Pending

record dimensions =
  width :: number
  height :: number

text \<open>
  What the browser does with the source given to an \<open>Image\<close>: it fires \<open>load\<close>, after
  which \<open>img.width\<close> and \<open>img.height\<close> (of type unsigned long) are the intrinsic
  dimensions, or it fires \<open>error\<close>. \<open>getImageDimensions\<close> listens to \<open>load\<close> only,
  and nothing ever calls a \<open>reject\<close>.
\<close>

datatype image_event = Loaded "32 word" "32 word" | Broken

fun getImageDimensions :: "image_event \<Rightarrow> dimensions settled" where
  "getImageDimensions (Loaded w h) =
     Fulfilled \<lparr>width = Num (of_nat (unat w)), height = Num (of_nat (unat h))\<rparr>"
| "getImageDimensions Broken = Pending"

definition maxWidth :: number where
  "maxWidth = Num 600"

definition maxHeight :: number where
  "maxHeight = Num 400"

text \<open>Lines 109 to 121: the size the element is created with.\<close>

definition targetSize :: "dimensions \<Rightarrow> dimensions" where
  "targetSize dims =
     (if gt_number (width dims) maxWidth \<or> gt_number (height dims) maxHeight
      then
        let ratio = min_number (div_number maxWidth (width dims))
                               (div_number maxHeight (height dims))
        in \<lparr>width = mul_number (width dims) ratio, height = mul_number (height dims) ratio\<rparr>
      else \<lparr>width = width dims, height = height dims\<rparr>)"

text \<open>
  The scaling policy in the words of the specification (section 4.2, steps 1 to 3),
  on the intrinsic width and height, in exact arithmetic: the ratio is the smaller of
  600 / width and 400 / height, where a quotient by 0 is infinite and so never the
  smaller one; both dimensions are multiplied by it when the width exceeds 600 or the
  height 400, and are kept otherwise.
\<close>

definition scaling_ratio :: "nat \<Rightarrow> nat \<Rightarrow> rat" where
  "scaling_ratio w h =
     (if w = 0 then 400 / of_nat h
      else if h = 0 then 600 / of_nat w
      else min (600 / of_nat w) (400 / of_nat h))"

definition scaling_policy :: "nat \<Rightarrow> nat \<Rightarrow> rat \<times> rat" where
  "scaling_policy w h =
     (if 600 < w \<or> 400 < h
      then (of_nat w * scaling_ratio w h, of_nat h * scaling_ratio w h)
      else (of_nat w, of_nat h))"

text \<open>The object literal passed to \<open>addElement\<close>.\<close>

record element = dimensions +
  type :: jsstring
  src :: jsstring
  draggable :: bool
  resizable :: bool
  alwaysOnTop :: bool

text \<open>
  The editor is a library outside the repository. Its three operations that the
  program calls are parameters of the model, over a state \<open>'ed\<close> of the editor:
  each of the first two returns normally or throws, the third returns a promise.
\<close>

record 'ed polotno =
  addElement :: "element \<Rightarrow> 'ed \<Rightarrow> error + (nat \<times> 'ed)"
  selectElements :: "nat list \<Rightarrow> 'ed \<Rightarrow> error + 'ed"
  toDataURL :: "'ed \<Rightarrow> jsstring settled"

text \<open>
  The state of the page: the uploads manager, the editor, the calls of
  \<open>console.error\<close> and of \<open>alert\<close>, the state of the toolbar, the number of
  \<open><a>\<close> elements created, and the downloads started by a click on one (file name
  and address).
\<close>

record 'ed app =
  uploadsManager :: manager
  store :: 'ed
  console :: "(jsstring \<times> error) list"
  alerts :: "jsstring list"
  imageName :: jsstring
  isDownloading :: bool
  links :: nat
  downloads :: "(jsstring \<times> jsstring) list"

definition console_error :: "jsstring \<Rightarrow> error \<Rightarrow> 'ed app \<Rightarrow> 'ed app" where
  "console_error msg e s = s\<lparr>console := console s @ [(msg, e)]\<rparr>"

text \<open>
  \<open>decode\<close> is the browser: the event each source leads to. The result is the
  promise of the async function together with the state it leaves.
\<close>

definition addImageToCanvas ::
    "'ed polotno \<Rightarrow> (jsstring \<Rightarrow> image_event) \<Rightarrow> jsstring \<Rightarrow> 'ed app \<Rightarrow> unit settled \<times> 'ed app" where
  "addImageToCanvas api decode imageUrl s =
     (case getImageDimensions (decode imageUrl) of
        Pending \<Rightarrow> (Pending, s)
      | Rejected e \<Rightarrow> (Fulfilled (), console_error (ascii ''Error adding image to canvas:'') e s)
      | Fulfilled dims \<Rightarrow>
          (let t = targetSize dims in
           case addElement api
                  \<lparr>width = width t, height = height t, type = ascii ''image'', src = imageUrl,
                    draggable = True, resizable = True, alwaysOnTop = False\<rparr> (store s) of
             Inl e \<Rightarrow> (Fulfilled (), console_error (ascii ''Error adding image to canvas:'') e s)
           | Inr (el, ed) \<Rightarrow>
               (case selectElements api [el] ed of
                  Inl e \<Rightarrow>
                    (Fulfilled (),
                     console_error (ascii ''Error adding image to canvas:'') e (s\<lparr>store := ed\<rparr>))
                | Inr ed' \<Rightarrow> (Fulfilled (), s\<lparr>store := ed'\<rparr>))))"

section \<open>The download button (index.js, lines 259 to 279)\<close>

text \<open>
  \<open>String.prototype.trim\<close> removes the white space and line terminator code units of
  ECMAScript from both ends.
\<close>

definition isWhiteSpace :: "code_unit \<Rightarrow> bool" where
  "isWhiteSpace c =
     (c \<in> {0x09, 0x0A, 0x0B, 0x0C, 0x0D, 0x20, 0xA0, 0x1680, 0x2028, 0x2029, 0x202F,
            0x205F, 0x3000, 0xFEFF}
      \<or> (0x2000 \<le> c \<and> c \<le> 0x200A))"

definition trim :: "jsstring \<Rightarrow> jsstring" where
  "trim s = rev (dropWhile isWhiteSpace (rev (dropWhile isWhiteSpace s)))"

definition handleDownload :: "'ed polotno \<Rightarrow> 'ed app \<Rightarrow> unit settled \<times> 'ed app" where
  "handleDownload api s =
     (if trim (imageName s) = []
      then (Fulfilled (), s\<lparr>alerts := alerts s @ [ascii ''Please enter an image name'']\<rparr>)
      else
        let s1 = s\<lparr>isDownloading := True\<rparr> in
        case toDataURL api (store s1) of
          Pending \<Rightarrow> (Pending, s1)
        | Rejected e \<Rightarrow>
            (Fulfilled (), (console_error (ascii ''Download failed:'') e s1)\<lparr>isDownloading := False\<rparr>)
        | Fulfilled dataUrl \<Rightarrow>
            (Fulfilled (),
             s1\<lparr>links := Suc (links s1),
                downloads := downloads s1 @ [(trim (imageName s1) @ ascii ''.png'', dataUrl)],
                isDownloading := False\<rparr>))"

section \<open>Properties of the uploads manager\<close>

lemma contents_addUpload: "contents (addUpload e s) = contents s @ [e]"
  by (simp add: contents_def getUploads_def addUpload_def alloc_def notifyListeners_def)

lemma notified_addUpload:
  "notified s (addUpload e s) = map (\<lambda>l. (l, uploads (addUpload e s))) (listeners s)"
  by (simp add: notified_def addUpload_def alloc_def notifyListeners_def)

text \<open>
  C6, as the code has it: \<open>addUpload\<close> appends its argument whatever it is, the
  absent one included, and calls every registered listener with the new array.
\<close>

theorem addUpload_appends_any_argument:
  "contents (addUpload e s) = contents s @ [e] \<and>
   notified s (addUpload e s) = map (\<lambda>l. (l, getUploads (addUpload e s))) (listeners s)"
  by (simp add: contents_addUpload notified_addUpload getUploads_def)

text \<open>
  C6 as stated fails: after \<open>addUpload(undefined)\<close> on the empty manager the
  collection holds one element.
\<close>

theorem addUpload_undefined_changes_collection:
  "contents (addUpload Undefined init_manager) = [Undefined] \<and>
   contents (addUpload Undefined init_manager) \<noteq> contents init_manager"
  by (simp add: contents_addUpload) (simp add: contents_def getUploads_def init_manager_def)

text \<open>With \<open>undefined\<close> in the collection, \<open>deleteUpload\<close> throws and calls no listener.\<close>

lemma deleteUpload_undefined_entry_throws:
  "deleteUpload i (addUpload Undefined init_manager) = Inl TypeError"
  by (simp add: deleteUpload_def addUpload_def alloc_def notifyListeners_def init_manager_def)

lemma filter_ids_records:
  "list_all is_record es \<Longrightarrow> filter_ids i es = Inr (filter (kept i) es)"
  by (induction i es rule: filter_ids.induct) auto

lemma filter_ids_map_Rec:
  "filter_ids i (map Rec rs) = Inr (map Rec (filter (\<lambda>r. \<not> strict_eq (id_upload r) i) rs))"
  by (induction rs) auto

lemma deleteUpload_records:
  assumes "list_all is_record (contents s)"
  shows "deleteUpload i s =
    Inr (notifyListeners (s\<lparr>heap := (heap s)(next_addr s := filter (kept i) (contents s)),
          next_addr := Suc (next_addr s), uploads := next_addr s\<rparr>))"
  using filter_ids_records[OF assms, of i]
  by (simp add: deleteUpload_def alloc_def contents_def getUploads_def)

lemma contents_deleteUpload:
  "deleteUpload i s = Inr s' \<Longrightarrow> filter_ids i (contents s) = Inr (contents s')"
  by (auto simp: deleteUpload_def alloc_def contents_def getUploads_def notifyListeners_def
      split: sum.splits)

lemma notified_deleteUpload:
  "deleteUpload i s = Inr s' \<Longrightarrow>
   notified s s' = map (\<lambda>l. (l, uploads s')) (listeners s)"
  by (auto simp: deleteUpload_def alloc_def notified_def notifyListeners_def split: sum.splits)

lemma exec_ops_contents:
  "contents s = map Rec rs \<Longrightarrow>
   fst (exec (map call_of ops) s) = None \<and>
   contents (snd (exec (map call_of ops) s)) =
     map Rec (filter (\<lambda>r. \<not> list_ex (removes r) ops) rs @ surviving ops)"
proof (induction ops arbitrary: s rs)
  case Nil
  then show ?case by simp
next
  case (Cons x ops)
  show ?case
  proof (cases x)
    case (Add r)
    have c: "contents (addUpload (Rec r) s) = map Rec (rs @ [r])"
      using Cons.prems by (simp add: contents_addUpload)
    show ?thesis using Cons.IH[OF c] Add by simp
  next
    case (Remove i)
    have "list_all is_record (contents s)" using Cons.prems by (simp add: list_all_iff)
    from deleteUpload_records[OF this, of i] obtain s' where d: "deleteUpload i s = Inr s'" by blast
    have c: "contents s' = map Rec (filter (\<lambda>r. \<not> strict_eq (id_upload r) i) rs)"
      using contents_deleteUpload[OF d] Cons.prems by (simp add: filter_ids_map_Rec)
    show ?thesis using Cons.IH[OF c] Remove d by (simp add: conj_commute)
  qed
qed

lemma perform_heap:
  "perform c s = Inr s' \<Longrightarrow> a < next_addr s \<Longrightarrow> heap s' a = heap s a \<and> next_addr s \<le> next_addr s'"
  by (cases c)
     (auto simp: addUpload_def deleteUpload_def alloc_def notifyListeners_def subscribe_def
        unsubscribe_def split: sum.splits)

lemma exec_heap:
  "a < next_addr s \<Longrightarrow> heap (snd (exec cs s)) a = heap s a \<and> a < next_addr (snd (exec cs s))"
proof (induction cs arbitrary: s)
  case Nil
  then show ?case by simp
next
  case (Cons c cs)
  show ?case
  proof (cases "perform c s")
    case (Inl e)
    then show ?thesis using Cons.prems by simp
  next
    case (Inr s')
    from perform_heap[OF Inr Cons.prems] have h: "heap s' a = heap s a" "a < next_addr s'"
      using Cons.prems by auto
    show ?thesis using Cons.IH[OF h(2)] h(1) Inr by simp
  qed
qed

lemma allocated_init: "allocated init_manager"
  by (simp add: allocated_def handed_out_def init_manager_def getUploads_def)

lemma perform_allocated:
  "perform c s = Inr s' \<Longrightarrow> allocated s \<Longrightarrow> allocated s'"
  by (cases c)
     (fastforce simp: allocated_def handed_out_def getUploads_def list_all_iff addUpload_def
        deleteUpload_def alloc_def notifyListeners_def subscribe_def unsubscribe_def
        less_Suc_eq split: sum.splits)+

lemma exec_allocated: "allocated s \<Longrightarrow> allocated (snd (exec cs s))"
proof (induction cs arbitrary: s)
  case Nil
  then show ?case by simp
next
  case (Cons c cs)
  then show ?case by (cases "perform c s") (auto dest: perform_allocated)
qed

lemma ids_map_Rec: "ids (map Rec rs) = map id_upload rs"
  by (induction rs) auto

lemma surviving_subset: "set (surviving ops) \<subseteq> set (added ops)"
  by (induction ops rule: surviving.induct) auto

lemma surviving_distinct:
  "distinct (map f (added ops)) \<Longrightarrow> distinct (map f (surviving ops))"
proof (induction ops rule: surviving.induct)
  case 1
  then show ?case by simp
next
  case (2 r ops)
  have "f r \<notin> f ` set (surviving ops)"
    using 2(3) surviving_subset[of ops] by auto
  then show ?case using 2 by simp
next
  case (3 i ops)
  then show ?case by simp
qed

text \<open>
  C3: after any sequence of additions and removals of upload records on the initially
  empty manager, no call has thrown and \<open>getUploads\<close> refers to exactly the
  records added and not removed by a later call, in the order of their insertion.
\<close>

theorem getUploads_after_sequence:
  "fst (exec (map call_of ops) init_manager) = None \<and>
   contents (snd (exec (map call_of ops) init_manager)) = map Rec (surviving ops)"
proof -
  have "contents init_manager = map Rec []"
    by (simp add: contents_def getUploads_def init_manager_def)
  from exec_ops_contents[OF this, of ops] show ?thesis by simp
qed

theorem getUploads_after_sequence_witness:
  "contents (snd (exec (map call_of
      [Add \<lparr>id_upload = Num 1, name = ascii ''a'', url = []\<rparr>,
       Add \<lparr>id_upload = Num 2, name = ascii ''b'', url = []\<rparr>,
       Remove (Num 1),
       Add \<lparr>id_upload = Num 3, name = ascii ''c'', url = []\<rparr>,
       Remove (Num 7)]) init_manager))
   = [Rec \<lparr>id_upload = Num 2, name = ascii ''b'', url = []\<rparr>,
      Rec \<lparr>id_upload = Num 3, name = ascii ''c'', url = []\<rparr>]"
  using getUploads_after_sequence[of
      "[Add \<lparr>id_upload = Num 1, name = ascii ''a'', url = []\<rparr>,
       Add \<lparr>id_upload = Num 2, name = ascii ''b'', url = []\<rparr>,
       Remove (Num 1),
       Add \<lparr>id_upload = Num 3, name = ascii ''c'', url = []\<rparr>,
       Remove (Num 7)]"]
  by simp

text \<open>
  The ids in the collection are pairwise different whenever those of the added
  records are: the manager adds no record of its own.
\<close>

lemma ids_unique_when_added_ids_differ:
  "distinct (map id_upload (added ops)) \<Longrightarrow>
   distinct (ids (contents (snd (exec (map call_of ops) init_manager))))"
proof -
  assume d: "distinct (map id_upload (added ops))"
  have "contents init_manager = map Rec []"
    by (simp add: contents_def getUploads_def init_manager_def)
  from exec_ops_contents[OF this, of ops]
  have "contents (snd (exec (map call_of ops) init_manager)) = map Rec (surviving ops)"
    by simp
  then show ?thesis using surviving_distinct[OF d] by (simp add: ids_map_Rec)
qed

text \<open>
  C8: on a collection of upload records none of which has the id given,
  \<open>deleteUpload\<close> returns normally, the collection has the same contents as
  before, and every registered listener is called with it.
\<close>

theorem deleteUpload_absent_id:
  assumes "list_all (\<lambda>e. is_record e \<and> kept i e) (contents s)"
  shows "\<exists>s'. deleteUpload i s = Inr s' \<and> contents s' = contents s \<and>
     notified s s' = map (\<lambda>l. (l, getUploads s')) (listeners s)"
proof -
  from assms have r: "list_all is_record (contents s)" and k: "list_all (kept i) (contents s)"
    by (simp_all add: list_all_iff)
  from deleteUpload_records[OF r, of i] obtain s' where d: "deleteUpload i s = Inr s'" by blast
  have "filter (kept i) (contents s) = contents s"
    using k by (simp add: list_all_iff)
  then have "contents s' = contents s"
    using contents_deleteUpload[OF d] filter_ids_records[OF r, of i] by simp
  then show ?thesis using d notified_deleteUpload[OF d] by (simp add: getUploads_def)
qed

theorem deleteUpload_absent_id_witness:
  "list_all (\<lambda>e. is_record e \<and> kept (Num 2) e)
     (contents (addUpload (Rec \<lparr>id_upload = Num 1, name = [], url = []\<rparr>) (subscribe 5 init_manager))) \<and>
   (\<exists>s'. deleteUpload (Num 2)
       (addUpload (Rec \<lparr>id_upload = Num 1, name = [], url = []\<rparr>) (subscribe 5 init_manager)) = Inr s' \<and>
     contents s' = [Rec \<lparr>id_upload = Num 1, name = [], url = []\<rparr>] \<and>
     notified (addUpload (Rec \<lparr>id_upload = Num 1, name = [], url = []\<rparr>) (subscribe 5 init_manager)) s'
       = [(5, getUploads s')])"
proof -
  let ?s = "addUpload (Rec \<lparr>id_upload = Num 1, name = [], url = []\<rparr>) (subscribe 5 init_manager)"
  have c: "contents ?s = [Rec \<lparr>id_upload = Num 1, name = [], url = []\<rparr>]"
    by (simp add: contents_addUpload) (simp add: contents_def getUploads_def subscribe_def init_manager_def)
  have l: "listeners ?s = [5]"
    by (simp add: addUpload_def alloc_def notifyListeners_def subscribe_def init_manager_def)
  have h: "list_all (\<lambda>e. is_record e \<and> kept (Num 2) e) (contents ?s)"
    by (simp add: c)
  from deleteUpload_absent_id[OF h] show ?thesis using h by (simp add: c l)
qed

lemma count_once: "distinct ls \<Longrightarrow> l \<in> set ls \<Longrightarrow> count_list ls l = 1"
  by (induction ls) (auto simp: count_list_0_iff)

lemma count_notified:
  "xs = map (\<lambda>l. (l, a)) ls \<Longrightarrow> length (filter (\<lambda>c. fst c = l) xs) = count_list ls l"
  by (induction ls arbitrary: xs) auto

text \<open>
  C4: \<open>addUpload\<close>, and \<open>deleteUpload\<close> on a collection of upload records,
  call every listener registered at the time of the call, in the order of
  registration and once for each registration, with the reference to the array made
  by the call; so a listener registered once, as every listener of the program is,
  is called exactly once. \<open>subscribe\<close> calls nothing: a listener registered after
  a change is not told of it.
\<close>

theorem notification_once_per_registration:
  "notified s (addUpload e s) = map (\<lambda>l. (l, getUploads (addUpload e s))) (listeners s) \<and>
   contents (addUpload e s) = contents s @ [e] \<and>
   length (filter (\<lambda>c. fst c = l) (notified s (addUpload e s))) = count_list (listeners s) l \<and>
   (list_all is_record (contents s) \<longrightarrow>
      (\<exists>s'. deleteUpload i s = Inr s' \<and> contents s' = filter (kept i) (contents s) \<and>
         notified s s' = map (\<lambda>l. (l, getUploads s')) (listeners s) \<and>
         length (filter (\<lambda>c. fst c = l) (notified s s')) = count_list (listeners s) l)) \<and>
   (distinct (listeners s) \<and> l \<in> set (listeners s) \<longrightarrow>
      length (filter (\<lambda>c. fst c = l) (notified s (addUpload e s))) = 1) \<and>
   notified s (subscribe l s) = []"
proof -
  have a: "notified s (addUpload e s) = map (\<lambda>l. (l, getUploads (addUpload e s))) (listeners s)"
    by (simp add: notified_addUpload getUploads_def)
  have d: "\<exists>s'. deleteUpload i s = Inr s' \<and> contents s' = filter (kept i) (contents s) \<and>
         notified s s' = map (\<lambda>l. (l, getUploads s')) (listeners s) \<and>
         length (filter (\<lambda>c. fst c = l) (notified s s')) = count_list (listeners s) l"
    if r: "list_all is_record (contents s)"
  proof -
    from deleteUpload_records[OF r, of i] obtain s' where d: "deleteUpload i s = Inr s'" by blast
    have "contents s' = filter (kept i) (contents s)"
      using contents_deleteUpload[OF d] filter_ids_records[OF r, of i] by simp
    moreover have "notified s s' = map (\<lambda>l. (l, getUploads s')) (listeners s)"
      using notified_deleteUpload[OF d] by (simp add: getUploads_def)
    ultimately show ?thesis using d count_notified[of "notified s s'" "getUploads s'" "listeners s" l]
      by simp
  qed
  have s: "notified s (subscribe l s) = []"
    by (simp add: notified_def subscribe_def)
  have o: "length (filter (\<lambda>c. fst c = l) (notified s (addUpload e s))) = 1"
    if "distinct (listeners s) \<and> l \<in> set (listeners s)"
    using that count_notified[OF a, of l] count_once[of "listeners s" l] by simp
  show ?thesis using a d s o count_notified[OF a, of l] by (simp add: contents_addUpload)
qed

theorem notification_once_per_registration_witness:
  "list_all is_record (contents (subscribe 5 (addUpload (Rec \<lparr>id_upload = Num 1, name = [], url = []\<rparr>) init_manager))) \<and>
   distinct (listeners (subscribe 5 (addUpload (Rec \<lparr>id_upload = Num 1, name = [], url = []\<rparr>) init_manager))) \<and>
   5 \<in> set (listeners (subscribe 5 (addUpload (Rec \<lparr>id_upload = Num 1, name = [], url = []\<rparr>) init_manager))) \<and>
   length (filter (\<lambda>c. fst c = 5)
     (notified (subscribe 5 (addUpload (Rec \<lparr>id_upload = Num 1, name = [], url = []\<rparr>) init_manager))
        (addUpload Undefined
          (subscribe 5 (addUpload (Rec \<lparr>id_upload = Num 1, name = [], url = []\<rparr>) init_manager))))) = 1 \<and>
   (\<exists>s'. deleteUpload (Num 1)
        (subscribe 5 (addUpload (Rec \<lparr>id_upload = Num 1, name = [], url = []\<rparr>) init_manager)) = Inr s' \<and>
      contents s' = [] \<and>
      notified (subscribe 5 (addUpload (Rec \<lparr>id_upload = Num 1, name = [], url = []\<rparr>) init_manager)) s'
        = [(5, getUploads s')])"
proof -
  let ?s = "subscribe 5 (addUpload (Rec \<lparr>id_upload = Num 1, name = [], url = []\<rparr>) init_manager)"
  have c: "contents ?s = [Rec \<lparr>id_upload = Num 1, name = [], url = []\<rparr>]"
    by (simp add: contents_def getUploads_def subscribe_def addUpload_def alloc_def
        notifyListeners_def init_manager_def)
  have l: "listeners ?s = [5]"
    by (simp add: addUpload_def alloc_def notifyListeners_def subscribe_def init_manager_def)
  have h: "list_all is_record (contents ?s)"
    by (simp add: c)
  have g: "distinct (listeners ?s) \<and> 5 \<in> set (listeners ?s)"
    by (simp add: l)
  note t = notification_once_per_registration[of ?s Undefined 5 "Num 1"]
  from t g have once: "length (filter (\<lambda>c. fst c = 5) (notified ?s (addUpload Undefined ?s))) = 1"
    by blast
  from t h
  have "\<exists>s'. deleteUpload (Num 1) ?s = Inr s' \<and> contents s' = filter (kept (Num 1)) (contents ?s) \<and>
         notified ?s s' = map (\<lambda>l. (l, getUploads s')) (listeners ?s)"
    by blast
  then have "\<exists>s'. deleteUpload (Num 1) ?s = Inr s' \<and> contents s' = [] \<and>
         notified ?s s' = [(5, getUploads s')]"
    by (simp add: c l)
  then show ?thesis using h g once by (intro conjI) (simp_all only: simp_thms)
qed

text \<open>
  Once for each registration: a function passed to \<open>subscribe\<close> twice, which the
  program never does, is called twice by one \<open>addUpload\<close>.
\<close>

lemma listener_registered_twice_is_called_twice:
  "listeners (subscribe 7 (subscribe 7 init_manager)) = [7, 7] \<and>
   map fst (notified (subscribe 7 (subscribe 7 init_manager))
      (addUpload (Rec \<lparr>id_upload = Num 1, name = [], url = []\<rparr>)
         (subscribe 7 (subscribe 7 init_manager)))) = [7, 7] \<and>
   length (filter (\<lambda>c. fst c = 7) (notified (subscribe 7 (subscribe 7 init_manager))
      (addUpload (Rec \<lparr>id_upload = Num 1, name = [], url = []\<rparr>)
         (subscribe 7 (subscribe 7 init_manager))))) = 2"
  by (simp add: notified_addUpload)
    (simp add: subscribe_def init_manager_def addUpload_def alloc_def notifyListeners_def)

text \<open>
  C10: in a state reached from the initial manager, whatever calls follow, every
  array whose reference was returned by \<open>getUploads\<close> or passed to a listener keeps
  its contents, as does every array allocated so far; \<open>addUpload\<close> and
  \<open>deleteUpload\<close> put their result in an array that no one holds yet.
\<close>

theorem snapshots_never_mutated:
  assumes "s = snd (exec cs0 init_manager)"
  shows "(\<forall>a \<in> set (handed_out s). heap (snd (exec cs s)) a = heap s a) \<and>
     (\<forall>a. a < next_addr s \<longrightarrow> heap (snd (exec cs s)) a = heap s a) \<and>
     getUploads (addUpload e s) \<notin> set (handed_out s) \<and>
     (\<forall>s'. deleteUpload i s = Inr s' \<longrightarrow> getUploads s' \<notin> set (handed_out s))"
proof -
  have al: "allocated s"
    unfolding assms by (rule exec_allocated[OF allocated_init])
  then have lt: "\<forall>a \<in> set (handed_out s). a < next_addr s"
    by (simp add: allocated_def list_all_iff)
  have "getUploads (addUpload e s) = next_addr s"
    by (simp add: getUploads_def addUpload_def alloc_def notifyListeners_def)
  moreover have "getUploads s' = next_addr s" if "deleteUpload i s = Inr s'" for s'
    using that
    by (auto simp: getUploads_def deleteUpload_def alloc_def notifyListeners_def split: sum.splits)
  ultimately show ?thesis using lt exec_heap[of _ s cs] by auto
qed

theorem snapshots_never_mutated_witness:
  "handed_out (snd (exec [Subscribe 3, AddUpload (Rec \<lparr>id_upload = Num 1, name = [], url = []\<rparr>)] init_manager))
     = [1, 1] \<and>
   heap (snd (exec [AddUpload Undefined, DeleteUpload (Num 1)]
       (snd (exec [Subscribe 3, AddUpload (Rec \<lparr>id_upload = Num 1, name = [], url = []\<rparr>)] init_manager)))) 1
     = [Rec \<lparr>id_upload = Num 1, name = [], url = []\<rparr>]"
proof -
  let ?s = "snd (exec [Subscribe 3, AddUpload (Rec \<lparr>id_upload = Num 1, name = [], url = []\<rparr>)] init_manager)"
  have h: "handed_out ?s = [1, 1]"
    by (simp add: handed_out_def getUploads_def subscribe_def addUpload_def alloc_def
        notifyListeners_def init_manager_def)
  have c: "heap ?s 1 = [Rec \<lparr>id_upload = Num 1, name = [], url = []\<rparr>]"
    by (simp add: subscribe_def addUpload_def alloc_def notifyListeners_def init_manager_def)
  from snapshots_never_mutated[OF refl, of "[Subscribe 3, AddUpload (Rec \<lparr>id_upload = Num 1, name = [], url = []\<rparr>)]"
      "[AddUpload Undefined, DeleteUpload (Num 1)]"]
  show ?thesis using h c by simp
qed

section \<open>Properties of rounding to binary64\<close>

text \<open>The binade of a value brackets it, and is the only exponent that does.\<close>

lemma binade_bounds:
  assumes "x \<noteq> 0"
  shows "2 powi (binade x) \<le> \<bar>x\<bar> \<and> \<bar>x\<bar> < 2 powi (binade x + 1)"
proof -
  obtain p q where pq: "quotient_of \<bar>x\<bar> = (p, q)" by (cases "quotient_of \<bar>x\<bar>")
  have q: "0 < q" using quotient_of_denom_pos[OF pq] .
  have x: "\<bar>x\<bar> = of_int p / of_int q" using quotient_of_div[OF pq] .
  have p: "0 < p"
  proof -
    have "0 < \<bar>x\<bar>" using assms by simp
    then have "0 < (of_int p :: rat) / of_int q" using x by simp
    then show ?thesis using q by (simp add: zero_less_divide_iff)
  qed
  define bp where "bp = bitlen p"
  define bq where "bq = bitlen q"
  have bp1: "1 \<le> bp" using p bitlen_eq_zero_iff[of p] bitlen_nonneg[of p] by (simp add: bp_def)
  have bq1: "1 \<le> bq" using q bitlen_eq_zero_iff[of q] bitlen_nonneg[of q] by (simp add: bq_def)
  have pw: "(2::rat) powi n = of_int (2 ^ nat n)" if "0 \<le> n" for n
    using that by (simp add: power_int_nonneg_exp)
  have p_lo: "(2::rat) powi (bp - 1) \<le> of_int p"
    using bitlen_bounds[OF p] bp1 unfolding bp_def[symmetric]
    by (simp only: pw of_int_le_iff)
  have p_hi: "of_int p < (2::rat) powi bp"
    using bitlen_bounds[OF p] bp1 unfolding bp_def[symmetric]
    by (simp only: pw of_int_less_iff)
  have q_lo: "(2::rat) powi (bq - 1) \<le> of_int q"
    using bitlen_bounds[OF q] bq1 unfolding bq_def[symmetric]
    by (simp only: pw of_int_le_iff)
  have q_hi: "of_int q < (2::rat) powi bq"
    using bitlen_bounds[OF q] bq1 unfolding bq_def[symmetric]
    by (simp only: pw of_int_less_iff)
  have pos: "0 < (2::rat) powi n" for n by simp
  have hi: "\<bar>x\<bar> < 2 powi (bp - bq + 1)"
  proof -
    have "of_int p / of_int q < (2::rat) powi bp / 2 powi (bq - 1)"
      using frac_less[of "of_int p" "2 powi bp" "2 powi (bq - 1)" "of_int q"] p p_hi q_lo pos
      by simp
    also have "\<dots> = 2 powi (bp - (bq - 1))" by (simp add: power_int_diff)
    finally show ?thesis by (simp add: x algebra_simps)
  qed
  have lo: "2 powi (bp - bq - 1) < \<bar>x\<bar>"
  proof -
    have "(2::rat) powi (bp - 1) / 2 powi bq < of_int p / of_int q"
      using frac_less2[of "2 powi (bp - 1)" "of_int p" "of_int q" "2 powi bq"] p_lo q_hi q pos
      by simp
    moreover have "(2::rat) powi (bp - 1) / 2 powi bq = 2 powi (bp - 1 - bq)"
      by (simp add: power_int_diff)
    ultimately show ?thesis by (simp add: x algebra_simps)
  qed
  have b: "binade x = (if 2 powi (bp - bq) \<le> \<bar>x\<bar> then bp - bq else bp - bq - 1)"
    by (simp add: binade_def pq bp_def bq_def)
  show ?thesis
  proof (cases "2 powi (bp - bq) \<le> \<bar>x\<bar>")
    case True
    then show ?thesis using b hi by simp
  next
    case False
    then have e: "binade x = bp - bq - 1" using b by simp
    have "\<bar>x\<bar> < 2 powi (bp - bq - 1 + 1)" using False by simp
    then show ?thesis using lo unfolding e by simp
  qed
qed

lemma powi_less_cancel: "(2::rat) powi m < 2 powi n \<Longrightarrow> m < n"
  by (rule ccontr) (use power_int_increasing[of n m "2::rat"] in simp)

lemma binade_unique:
  assumes "2 powi e \<le> \<bar>x\<bar>" "\<bar>x\<bar> < 2 powi (e + 1)"
  shows "binade x = e"
proof -
  have "x \<noteq> 0"
  proof
    assume "x = 0"
    with assms(1) have "(2::rat) powi e \<le> 0" by simp
    moreover have "(0::rat) < 2 powi e" by simp
    ultimately show False by linarith
  qed
  from binade_bounds[OF this] have b: "2 powi (binade x) \<le> \<bar>x\<bar>" "\<bar>x\<bar> < 2 powi (binade x + 1)"
    by simp_all
  have "(2::rat) powi e < 2 powi (binade x + 1)" using assms(1) b(2) by simp
  then have "e < binade x + 1" by (rule powi_less_cancel)
  moreover have "(2::rat) powi (binade x) < 2 powi (e + 1)" using assms(2) b(1) by simp
  then have "binade x < e + 1" by (rule powi_less_cancel)
  ultimately show ?thesis by simp
qed

text \<open>Rounding to an integer moves by at most a half and never across an integer.\<close>

lemma round_half_even_of_int [simp]: "round_half_even (of_int n) = n"
  by (simp add: round_half_even_def)

lemma round_half_even_near: "\<bar>of_int (round_half_even x) - x\<bar> \<le> 1 / 2"
proof -
  have "of_int \<lfloor>x\<rfloor> \<le> x" "x < of_int \<lfloor>x\<rfloor> + 1" by linarith+
  then show ?thesis by (auto simp: round_half_even_def Let_def)
qed

lemma round_half_even_le: "x \<le> of_int n \<Longrightarrow> round_half_even x \<le> n"
proof -
  assume a: "x \<le> of_int n"
  show ?thesis
  proof (cases "x = of_int n")
    case True
    then show ?thesis by simp
  next
    case False
    then have "x < of_int n" using a by simp
    then have "\<lfloor>x\<rfloor> < n" by (simp add: floor_less_iff)
    then show ?thesis by (auto simp: round_half_even_def Let_def)
  qed
qed

lemma round_half_even_ge: "of_int n \<le> x \<Longrightarrow> n \<le> round_half_even x"
proof -
  assume "of_int n \<le> x"
  then have "n \<le> \<lfloor>x\<rfloor>" by (simp add: le_floor_iff)
  then show ?thesis by (auto simp: round_half_even_def Let_def)
qed

text \<open>
  In the normal range the result is finite, stays in the closed binade of the
  argument and is within half a unit in the last place of it.
\<close>

lemma round64_normal:
  assumes e: "2 powi e \<le> x" "x < 2 powi (e + 1)" and r: "- 1022 \<le> e" "e \<le> 1022"
  shows "\<exists>y. round64 x = Num y \<and> y = of_int (round_half_even (x / 2 powi (e - 52))) * 2 powi (e - 52)
     \<and> 2 powi e \<le> y \<and> y \<le> 2 powi (e + 1) \<and> \<bar>y - x\<bar> \<le> 2 powi (e - 53)"
proof -
  define u :: rat where "u = 2 powi (e - 52)"
  define m where "m = round_half_even (x / u)"
  have u: "0 < u" by (simp add: u_def)
  have x: "0 < x" using e(1) zero_less_power_int[of "2::rat" e] by linarith
  have b: "binade x = e" using binade_unique[of e x] e x by simp
  have split: "(2::rat) powi (k + (e - 52)) = 2 powi k * u" for k
    unfolding u_def by (rule power_int_add) simp
  have lo: "2 powi e = of_int (2 ^ 52) * u"
    using split[of 52] by simp
  have hi: "2 powi (e + 1) = of_int (2 ^ 53) * u"
  proof -
    have "(2::rat) powi (e + 1) = 2 powi (53 + (e - 52))"
      by (rule arg_cong[where f = "\<lambda>k. 2 powi k"]) simp
    also have "\<dots> = 2 powi 53 * u" by (rule split)
    finally show ?thesis by simp
  qed
  have half: "2 powi (e - 53) = u / 2"
  proof -
    have "(2::rat) powi (e - 53) = 2 powi (- 1 + (e - 52))"
      by (rule arg_cong[where f = "\<lambda>k. 2 powi k"]) simp
    also have "\<dots> = 2 powi (- 1) * u" by (rule split)
    finally show ?thesis by simp
  qed
  have "of_int (2 ^ 52) \<le> x / u" using e(1) u unfolding lo by (simp add: pos_le_divide_eq)
  then have m_lo: "2 ^ 52 \<le> m" unfolding m_def by (rule round_half_even_ge)
  have "x / u \<le> of_int (2 ^ 53)" using e(2) u unfolding hi by (simp add: pos_divide_le_eq)
  then have m_hi: "m \<le> 2 ^ 53" unfolding m_def by (rule round_half_even_le)
  define y where "y = of_int m * u"
  have y_lo: "2 powi e \<le> y"
    unfolding lo y_def using m_lo u by (simp only: mult_le_cancel_right_pos of_int_le_iff)
  have y_hi: "y \<le> 2 powi (e + 1)"
    unfolding hi y_def using m_hi u by (simp only: mult_le_cancel_right_pos of_int_le_iff)
  have "(2::rat) powi (e + 1) \<le> 2 powi 1023" using r by (intro power_int_increasing) auto
  moreover have "(2::rat) powi 1023 < 2 powi 1024" by (intro power_int_strict_increasing) auto
  ultimately have fin: "\<bar>y\<bar> < 2 powi 1024" using y_hi y_lo zero_less_power_int[of "2::rat" e]
    by linarith
  have "y - x = (of_int m - x / u) * u" using u by (simp add: y_def field_simps)
  then have "\<bar>y - x\<bar> = \<bar>of_int m - x / u\<bar> * u" using u by (simp add: abs_mult)
  also have "\<dots> \<le> 1 / 2 * u"
    using round_half_even_near[of "x / u"] u unfolding m_def
    by (intro mult_right_mono) auto
  finally have err: "\<bar>y - x\<bar> \<le> 2 powi (e - 53)" by (simp add: half)
  have "round64 x = Num y"
    using x fin r by (simp add: round64_def b Let_def u_def[symmetric] m_def[symmetric] y_def[symmetric] max_def)
  then show ?thesis using y_lo y_hi err by (simp add: y_def m_def u_def)
qed

text \<open>
  What the proofs below use of a rounding in the normal range: the relative error is
  at most \<open>2 powi (- 53)\<close>, and the result is on the same side as the argument of
  every binary64 value \<open>m * 2 powi (k - 52)\<close> above it and of every power of two below
  it.
\<close>

lemma round64_props:
  assumes x: "2 powi (- 1022) \<le> x" "x < 2 powi 1023"
  obtains y where "round64 x = Num y" "\<bar>y - x\<bar> \<le> x / 2 ^ 53" "0 < y"
    "\<And>m k. x \<le> of_int m * 2 powi (k - 52) \<Longrightarrow> 2 ^ 52 \<le> m \<Longrightarrow> m < 2 ^ 53 \<Longrightarrow>
       y \<le> of_int m * 2 powi (k - 52)"
    "\<And>j. 2 powi j \<le> x \<Longrightarrow> 2 powi j \<le> y"
proof -
  define e where "e = binade x"
  have pos: "0 < x" using x(1) zero_less_power_int[of "2::rat" "- 1022"] by linarith
  then have b: "2 powi e \<le> x" "x < 2 powi (e + 1)"
    using binade_bounds[of x] by (simp_all add: e_def)
  have "(2::rat) powi (- 1022) < 2 powi (e + 1)" using x(1) b(2) by simp
  then have e_lo: "- 1022 \<le> e" using powi_less_cancel[of "- 1022" "e + 1"] by simp
  have "(2::rat) powi e < 2 powi 1023" using x(2) b(1) by simp
  then have e_hi: "e \<le> 1022" using powi_less_cancel[of e 1023] by simp
  from round64_normal[OF b e_lo e_hi] obtain y where
    y: "round64 x = Num y" "y = of_int (round_half_even (x / 2 powi (e - 52))) * 2 powi (e - 52)"
       "2 powi e \<le> y" "y \<le> 2 powi (e + 1)" "\<bar>y - x\<bar> \<le> 2 powi (e - 53)"
    by blast
  have u: "(0::rat) < 2 powi (e - 52)" by simp
  have "(2::rat) powi (e - 53) = 2 powi e / 2 ^ 53"
    using power_int_diff[of "2::rat" e 53] by simp
  also have "\<dots> \<le> x / 2 ^ 53" using b(1) by (simp add: divide_right_mono)
  finally have err: "\<bar>y - x\<bar> \<le> x / 2 ^ 53" using y(5) by simp
  have ypos: "0 < y" using y(3) zero_less_power_int[of "2::rat" e] by linarith
  have grid: "y \<le> of_int m * 2 powi (k - 52)"
    if c: "x \<le> of_int m * 2 powi (k - 52)" and m: "2 ^ 52 \<le> m" "m < 2 ^ 53" for m k
  proof -
    have k52: "(2::rat) powi k = of_int (2 ^ 52) * 2 powi (k - 52)"
    proof -
      have "(2::rat) powi k = 2 powi (52 + (k - 52))"
        by (rule arg_cong[where f = "\<lambda>k. 2 powi k"]) simp
      also have "\<dots> = 2 powi 52 * 2 powi (k - 52)" by (rule power_int_add) simp
      finally show ?thesis by simp
    qed
    have k53: "(2::rat) powi (k + 1) = of_int (2 ^ 53) * 2 powi (k - 52)"
    proof -
      have "(2::rat) powi (k + 1) = 2 powi (53 + (k - 52))"
        by (rule arg_cong[where f = "\<lambda>k. 2 powi k"]) simp
      also have "\<dots> = 2 powi 53 * 2 powi (k - 52)" by (rule power_int_add) simp
      finally show ?thesis by simp
    qed
    have "of_int m * 2 powi (k - 52) < (of_int (2 ^ 53) :: rat) * 2 powi (k - 52)"
      using m(2) by (simp only: mult_less_cancel_right_pos zero_less_power_int of_int_less_iff)
    then have "x < 2 powi (k + 1)" using c unfolding k53 by linarith
    then have "(2::rat) powi e < 2 powi (k + 1)" using b(1) by linarith
    then have ek: "e \<le> k" using powi_less_cancel[of e "k + 1"] by simp
    have ck: "(2::rat) powi k \<le> of_int m * 2 powi (k - 52)"
      unfolding k52 using m(1)
      by (simp only: mult_le_cancel_right_pos zero_less_power_int of_int_le_iff)
    show ?thesis
    proof (cases "e = k")
      case True
      have "x / 2 powi (e - 52) \<le> of_int m"
        using c u unfolding True by (simp add: pos_divide_le_eq)
      then have "round_half_even (x / 2 powi (e - 52)) \<le> m" by (rule round_half_even_le)
      then show ?thesis unfolding y(2) True
        by (simp only: mult_le_cancel_right_pos zero_less_power_int of_int_le_iff)
    next
      case False
      then have "e + 1 \<le> k" using ek by simp
      then have "(2::rat) powi (e + 1) \<le> 2 powi k" by (intro power_int_increasing) auto
      then show ?thesis using y(4) ck by linarith
    qed
  qed
  have low: "2 powi j \<le> y" if "2 powi j \<le> x" for j
  proof -
    have "(2::rat) powi j < 2 powi (e + 1)" using that b(2) by linarith
    then have "j \<le> e" using powi_less_cancel[of j "e + 1"] by simp
    then have "(2::rat) powi j \<le> 2 powi e" by (intro power_int_increasing) auto
    then show ?thesis using y(3) by linarith
  qed
  show ?thesis using that[OF y(1) err ypos grid low] by blast
qed

subsection \<open>The two divisions and the two products of the scaling\<close>

lemma min_number_Num: "min_number (Num a) (Num b) = Num (min a b)"
  by (simp add: min_def)

text \<open>
  A dimension \<open>W\<close> times a ratio \<open>r\<close> that is at most the rounded quotient \<open>a\<close> of
  the bound \<open>c\<close> by \<open>W\<close>: the rounded product is below every binary64 value above
  \<open>c + c / 2 ^ 53\<close>.
\<close>

lemma scaled_dimension:
  fixes W r a c :: rat
  assumes W: "1 \<le> W" "W < 2 ^ 32"
    and r: "2 powi (- 24) \<le> r" "r \<le> a" "r \<le> 1"
    and a: "\<bar>a - c / W\<bar> \<le> (c / W) / 2 ^ 53" and c: "0 < c"
  obtains y where "round64 (W * r) = Num y" "\<bar>y - W * r\<bar> \<le> W * r / 2 ^ 53"
    "\<And>m k. c + c / 2 ^ 53 \<le> of_int m * 2 powi (k - 52) \<Longrightarrow> 2 ^ 52 \<le> m \<Longrightarrow> m < 2 ^ 53 \<Longrightarrow>
       y \<le> of_int m * 2 powi (k - 52)"
proof -
  have rpos: "0 < r" using r(1) zero_less_power_int[of "2::rat" "- 24"] by linarith
  have "2 powi (- 24) * 1 \<le> r * W" using r(1) W(1) rpos by (intro mult_mono) auto
  then have lo24: "2 powi (- 24) \<le> W * r" by (simp add: mult.commute)
  have "(2::rat) powi (- 1022) \<le> 2 powi (- 24)" by (intro power_int_increasing) auto
  then have lo: "2 powi (- 1022) \<le> W * r" using lo24 by linarith
  have "W * r \<le> W * 1" using r(3) W(1) by (intro mult_left_mono) auto
  moreover have "(2::rat) ^ 32 \<le> 2 powi 1023"
    using power_int_increasing[of 32 1023 "2::rat"] by simp
  ultimately have hi: "W * r < 2 powi 1023" using W(2) by linarith
  have "a \<le> c / W + (c / W) / 2 ^ 53" using a by linarith
  then have "W * a \<le> W * (c / W + (c / W) / 2 ^ 53)" using W(1) by (intro mult_left_mono) auto
  also have "\<dots> = c + c / 2 ^ 53" using W(1) by (simp add: field_simps)
  finally have "W * a \<le> c + c / 2 ^ 53" .
  moreover have "W * r \<le> W * a" using r(2) W(1) by (intro mult_left_mono) auto
  ultimately have up: "W * r \<le> c + c / 2 ^ 53" by linarith
  show ?thesis
  proof (rule round64_props[OF lo hi])
    fix y
    assume y: "round64 (W * r) = Num y" "\<bar>y - W * r\<bar> \<le> W * r / 2 ^ 53"
      and grid: "\<And>m k. W * r \<le> of_int m * 2 powi (k - 52) \<Longrightarrow> 2 ^ 52 \<le> m \<Longrightarrow> m < 2 ^ 53 \<Longrightarrow>
          y \<le> of_int m * 2 powi (k - 52)"
    have "y \<le> of_int m * 2 powi (k - 52)"
      if "c + c / 2 ^ 53 \<le> of_int m * 2 powi (k - 52)" "2 ^ 52 \<le> m" "m < 2 ^ 53" for m k
    proof -
      have "W * r \<le> of_int m * 2 powi (k - 52)" using that(1) up by linarith
      then show ?thesis using that(2,3) by (rule grid)
    qed
    then show ?thesis using y by (rule that[rotated 2])
  qed
qed

text \<open>The quotient of a bound by a dimension is in the normal range, and so is its rounding.\<close>

lemma quotient_range:
  fixes W c :: rat
  assumes W: "1 \<le> W" "W < 2 ^ 32" and c: "400 \<le> c" "c \<le> 600"
  shows "2 powi (- 1022) \<le> c / W" "c / W < 2 powi 1023" "2 powi (- 24) \<le> c / W"
proof -
  have Wpos: "0 < W" using W(1) by linarith
  have "2 powi (- 24) * W \<le> 2 powi (- 24) * 2 ^ 32" using W(2) by (intro mult_left_mono) auto
  also have "\<dots> = (256::rat)" by simp
  finally have "2 powi (- 24) * W \<le> c" using c(1) by linarith
  then show lo: "2 powi (- 24) \<le> c / W" using Wpos by (simp add: pos_le_divide_eq)
  have "(2::rat) powi (- 1022) \<le> 2 powi (- 24)" by (intro power_int_increasing) auto
  then show "2 powi (- 1022) \<le> c / W" using lo by linarith
  have "c / W \<le> c / 1" using W(1) c(1) by (intro divide_left_mono) auto
  moreover have "(2::rat) ^ 10 \<le> 2 powi 1023"
    using power_int_increasing[of 10 1023 "2::rat"] by simp
  ultimately show "c / W < 2 powi 1023" using c(2) by simp
qed

lemma quotient_rounded:
  fixes W c :: rat
  assumes W: "1 \<le> W" "W < 2 ^ 32" and c: "400 \<le> c" "c \<le> 600"
  obtains a where "round64 (c / W) = Num a" "\<bar>a - c / W\<bar> \<le> (c / W) / 2 ^ 53"
    "2 powi (- 24) \<le> a" "c < W \<Longrightarrow> a \<le> 1"
proof -
  note q = quotient_range[OF assms]
  obtain a where a: "round64 (c / W) = Num a" "\<bar>a - c / W\<bar> \<le> (c / W) / 2 ^ 53" "0 < a"
    "\<And>m k. c / W \<le> of_int m * 2 powi (k - 52) \<Longrightarrow> 2 ^ 52 \<le> m \<Longrightarrow> m < 2 ^ 53 \<Longrightarrow>
       a \<le> of_int m * 2 powi (k - 52)"
    "\<And>j. 2 powi j \<le> c / W \<Longrightarrow> 2 powi j \<le> a"
    by (rule round64_props[OF q(1) q(2)]) (rule that)
  have lo: "2 powi (- 24) \<le> a" using q(3) by (rule a(5))
  have one: "a \<le> 1" if "c < W"
  proof -
    have "c / W \<le> 1" using that W(1) by simp
    then have "c / W \<le> of_int (2 ^ 52) * 2 powi (0 - 52)" by simp
    then have "a \<le> of_int (2 ^ 52) * 2 powi (0 - 52)" by (rule a(4)) simp_all
    then show ?thesis by simp
  qed
  show ?thesis using a(1) a(2) lo one by (rule that)
qed

lemma dimension_range:
  fixes w :: "32 word"
  assumes "0 < unat w"
  shows "1 \<le> (of_nat (unat w) :: rat)" "(of_nat (unat w) :: rat) < 2 ^ 32"
proof -
  have "(of_nat 1 :: rat) \<le> of_nat (unat w)"
    by (simp only: of_nat_le_iff) (use assms in simp)
  then show "1 \<le> (of_nat (unat w) :: rat)" by (simp only: of_nat_1)
  have "unat w < 2 ^ 32" using unsigned_less[of w, where ?'a = nat] by simp
  then have "(of_nat (unat w) :: rat) < of_nat (2 ^ 32)" by (simp only: of_nat_less_iff)
  then show "(of_nat (unat w) :: rat) < 2 ^ 32" by simp
qed


subsection \<open>Roundings of the values met below\<close>

text \<open>
  A rounding is evaluated by giving the binade of the argument and the integer
  nearest to its multiple of the unit in the last place.
\<close>

lemma round_half_even_unique: "\<bar>x - of_int m\<bar> < 1 / 2 \<Longrightarrow> round_half_even x = m"
proof -
  assume a: "\<bar>x - of_int m\<bar> < 1 / 2"
  have f: "of_int \<lfloor>x\<rfloor> \<le> x" "x < of_int \<lfloor>x\<rfloor> + 1" by linarith+
  consider "\<lfloor>x\<rfloor> = m" | "\<lfloor>x\<rfloor> = m - 1" using a f by (cases "x < of_int m") linarith+
  then show ?thesis
  proof cases
    case 1
    then show ?thesis using a f by (auto simp: round_half_even_def Let_def)
  next
    case 2
    then show ?thesis using a f by (auto simp: round_half_even_def Let_def)
  qed
qed

lemma round64_eval:
  assumes "2 powi e \<le> x" "x < 2 powi (e + 1)" "- 1022 \<le> e" "e \<le> 1022"
    and "\<bar>x / 2 powi (e - 52) - of_int m\<bar> < 1 / 2"
  shows "round64 x = Num (of_int m * 2 powi (e - 52))"
proof -
  from round64_normal[OF assms(1-4)] obtain y where
    "round64 x = Num y" "y = of_int (round_half_even (x / 2 powi (e - 52))) * 2 powi (e - 52)"
    by (elim exE conjE)
  then show ?thesis using round_half_even_unique[OF assms(5)] by simp
qed

lemmas round64_half = round64_eval[of "- 1" "1 / 2" 4503599627370496, simplified]
lemmas round64_three_quarters = round64_eval[of "- 1" "3 / 4" 6755399441055744, simplified]
lemmas round64_four_thirds = round64_eval[of 0 "4 / 3" 6004799503160661, simplified]
lemmas round64_600 = round64_eval[of 9 600 5277655813324800, simplified]
lemmas round64_400 = round64_eval[of 8 400 7036874417766400, simplified]
lemmas round64_225 = round64_eval[of 7 225 7916483719987200, simplified]
lemmas round64_ratio_1101 = round64_eval[of "- 1" "600 / 1101" 4908555452174928, simplified]
lemmas round64_width_1101 =
  round64_eval[of 9 "1101 * (306784715760933 / 562949953421312)" 5277655813324801, simplified]
lemmas round64_height_1101 =
  round64_eval[of "- 1" "306784715760933 / 562949953421312" 4908555452174928, simplified]
lemmas round64_six_sevenths = round64_eval[of "- 1" "6 / 7" 7720456504063707, simplified]
lemmas round64_tenth = round64_eval[of "- 4" "1 / 10" 7205759403792794, simplified]
lemmas round64_width_700 =
  round64_eval[of 6 "700 * (3602879701896397 / 36028797018963968)" 4925812092436480, simplified]
lemmas round64_height_4000 =
  round64_eval[of 8 "4000 * (3602879701896397 / 36028797018963968)" 7036874417766400, simplified]
lemmas round64_ratio_530 = round64_eval[of "- 1" "400 / 530" 6797886229993202, simplified]
lemmas round64_width_530 =
  round64_eval[of "- 1" "3398943114996601 / 4503599627370496" 6797886229993202, simplified]
lemmas round64_height_530 =
  round64_eval[of 8 "530 * (3398943114996601 / 4503599627370496)" 7036874417766401, simplified]
lemmas round64_clock_half =
  round64_eval[of 40 "1700000000000 + 1 / 2" 6963200000002048, simplified]
lemmas round64_clock_half' =
  round64_eval[of 40 "1700000000000 + (1 / 2 + 1 / 2 ^ 20)" 6963200000002048, simplified]

section \<open>Properties of the canvas insertion\<close>

text \<open>
  A product of a dimension, possibly 0, and a ratio between \<open>2 powi (- 24)\<close> and 1
  is rounded with a relative error of at most \<open>2 powi (- 53)\<close>; the smaller of two
  rounded quotients is as close to the smaller of the exact ones; and the two errors
  add up as follows.
\<close>

lemma product_rounded:
  fixes W r :: rat
  assumes W: "W = 0 \<or> 1 \<le> W" "W < 2 ^ 32" and r: "2 powi (- 24) \<le> r" "r \<le> 1"
  obtains y where "round64 (W * r) = Num y" "\<bar>y - W * r\<bar> \<le> W * r / 2 ^ 53"
proof (cases "W = 0")
  case True
  have "round64 (W * r) = Num 0" "\<bar>0 - W * r\<bar> \<le> W * r / 2 ^ 53"
    by (simp_all add: True round64_def)
  then show ?thesis by (rule that)
next
  case False
  then have W1: "1 \<le> W" using W(1) by simp
  have rpos: "0 < r" using r(1) zero_less_power_int[of "2::rat" "- 24"] by linarith
  have "2 powi (- 24) * 1 \<le> r * W" using r(1) W1 rpos by (intro mult_mono) auto
  then have lo24: "2 powi (- 24) \<le> W * r" by (simp add: mult.commute)
  have "(2::rat) powi (- 1022) \<le> 2 powi (- 24)" by (intro power_int_increasing) auto
  then have lo: "2 powi (- 1022) \<le> W * r" using lo24 by linarith
  have "W * r \<le> W * 1" using r(2) W1 by (intro mult_left_mono) auto
  moreover have "(2::rat) ^ 32 \<le> 2 powi 1023"
    using power_int_increasing[of 32 1023 "2::rat"] by simp
  ultimately have hi: "W * r < 2 powi 1023" using W(2) by linarith
  show ?thesis
  proof (rule round64_props[OF lo hi])
    fix y
    assume "round64 (W * r) = Num y" "\<bar>y - W * r\<bar> \<le> W * r / 2 ^ 53"
    then show ?thesis by (rule that)
  qed
qed

lemma min_close:
  fixes a b A B :: rat
  assumes "\<bar>a - A\<bar> \<le> A / 2 ^ 53" "\<bar>b - B\<bar> \<le> B / 2 ^ 53"
  shows "\<bar>min a b - min A B\<bar> \<le> min A B / 2 ^ 53"
  using assms by (simp add: min_def abs_if split: if_splits)

lemma product_close:
  fixes y W r q :: rat
  assumes "\<bar>y - W * r\<bar> \<le> W * r / 2 ^ 53" "\<bar>r - q\<bar> \<le> q / 2 ^ 53" "0 \<le> W"
  shows "\<bar>y - W * q\<bar> \<le> W * q * (1 / 2 ^ 52 + 1 / 2 ^ 106)"
proof -
  have "\<bar>W * r - W * q\<bar> = W * \<bar>r - q\<bar>"
    using assms(3) by (simp add: abs_mult flip: right_diff_distrib)
  also have "\<dots> \<le> W * (q / 2 ^ 53)" using assms(2,3) by (intro mult_left_mono) auto
  finally have d: "\<bar>W * r - W * q\<bar> \<le> W * q / 2 ^ 53" by simp
  define P where "P = W * r"
  define Q where "Q = W * q"
  have 1: "\<bar>y - P\<bar> \<le> P / 2 ^ 53" and 2: "\<bar>P - Q\<bar> \<le> Q / 2 ^ 53"
    using assms(1) d by (simp_all add: P_def Q_def)
  have "P \<le> Q + Q / 2 ^ 53" using 2 by linarith
  then have "P / 2 ^ 53 \<le> (Q + Q / 2 ^ 53) / 2 ^ 53" by (intro divide_right_mono) auto
  then have "\<bar>y - Q\<bar> \<le> (Q + Q / 2 ^ 53) / 2 ^ 53 + Q / 2 ^ 53" using 1 2 by linarith
  also have "\<dots> = Q * (1 / 2 ^ 52 + 1 / 2 ^ 106)" by (simp add: field_simps)
  finally show ?thesis by (simp add: Q_def)
qed

lemma dimension_cases:
  fixes w :: "32 word"
  shows "((of_nat (unat w) :: rat) = 0 \<or> 1 \<le> (of_nat (unat w) :: rat))"
    "(of_nat (unat w) :: rat) < 2 ^ 32" "0 \<le> (of_nat (unat w) :: rat)"
proof -
  show "(of_nat (unat w) :: rat) < 2 ^ 32"
  proof -
    have "unat w < 2 ^ 32" using unsigned_less[of w, where ?'a = nat] by simp
    then have "(of_nat (unat w) :: rat) < of_nat (2 ^ 32)" by (simp only: of_nat_less_iff)
    then show ?thesis by simp
  qed
  show "0 \<le> (of_nat (unat w) :: rat)" by (rule of_nat_0_le_iff)
  show "(of_nat (unat w) :: rat) = 0 \<or> 1 \<le> (of_nat (unat w) :: rat)"
  proof (cases "unat w = 0")
    case True
    then have "(of_nat (unat w) :: rat) = 0" by (simp only: of_nat_0)
    then show ?thesis by (rule disjI1)
  next
    case False
    then have "0 < unat w" by simp
    then show ?thesis using dimension_range(1)[of w] by (simp only: simp_thms)
  qed
qed

lemma target_size_general:
  fixes w h :: "32 word"
  shows "\<exists>tw th.
     targetSize \<lparr>width = Num (of_nat (unat w)), height = Num (of_nat (unat h))\<rparr>
       = \<lparr>width = Num tw, height = Num th\<rparr> \<and>
     (if 600 < unat w \<or> 400 < unat h
      then \<bar>tw - fst (scaling_policy (unat w) (unat h))\<bar>
             \<le> fst (scaling_policy (unat w) (unat h)) * (1 / 2 ^ 52 + 1 / 2 ^ 106) \<and>
           \<bar>th - snd (scaling_policy (unat w) (unat h))\<bar>
             \<le> snd (scaling_policy (unat w) (unat h)) * (1 / 2 ^ 52 + 1 / 2 ^ 106)
      else tw = of_nat (unat w) \<and> th = of_nat (unat h))"
proof -
  define W :: rat where "W = of_nat (unat w)"
  define H :: rat where "H = of_nat (unat h)"
  note W = dimension_cases[of w, folded W_def]
  note H = dimension_cases[of h, folded H_def]
  have gw: "(600 < W) = (600 < unat w)"
    using of_nat_less_iff[of 600 "unat w", where ?'a = rat] by (simp add: W_def)
  have gh: "(400 < H) = (400 < unat h)"
    using of_nat_less_iff[of 400 "unat h", where ?'a = rat] by (simp add: H_def)
  have zw: "(W = 0) = (unat w = 0)" unfolding W_def by (rule of_nat_eq_0_iff)
  have zh: "(H = 0) = (unat h = 0)" unfolding H_def by (rule of_nat_eq_0_iff)
  have c6: "(400::rat) \<le> 600" "(600::rat) \<le> 600" and c4: "(400::rat) \<le> 400" "(400::rat) \<le> 600"
    by simp_all
  show ?thesis
  proof (cases "600 < unat w \<or> 400 < unat h")
    case False
    then have "targetSize \<lparr>width = Num W, height = Num H\<rparr> = \<lparr>width = Num W, height = Num H\<rparr>"
      using gw gh by (simp add: targetSize_def maxWidth_def maxHeight_def)
    then show ?thesis using False unfolding W_def H_def
      by (intro exI[of _ "of_nat (unat w)"] exI[of _ "of_nat (unat h)"]) (simp only: if_False simp_thms)
  next
    case True
    define q where "q = scaling_ratio (unat w) (unat h)"
    have pol: "scaling_policy (unat w) (unat h) = (W * q, H * q)"
      using True by (simp only: scaling_policy_def if_True q_def W_def H_def)
    have "\<exists>r. min_number (div_number maxWidth (Num W)) (div_number maxHeight (Num H)) = Num r \<and>
        2 powi (- 24) \<le> r \<and> r \<le> 1 \<and> \<bar>r - q\<bar> \<le> q / 2 ^ 53"
    proof (cases "W = 0")
      case w0: True
      then have hgt: "400 < H" using True gw gh by simp
      then have H1: "1 \<le> H" by simp
      obtain b where b: "round64 (400 / H) = Num b" "\<bar>b - 400 / H\<bar> \<le> (400 / H) / 2 ^ 53"
        "2 powi (- 24) \<le> b" "400 < H \<Longrightarrow> b \<le> 1"
        by (rule quotient_rounded[OF H1 H(2) c4]) (rule that)
      have "unat w = 0" using w0 zw by simp
      then have "q = 400 / H"
        unfolding q_def scaling_ratio_def H_def by (simp del: of_nat_unat)
      moreover have "min_number (div_number maxWidth (Num W)) (div_number maxHeight (Num H)) = Num b"
        using w0 hgt by (simp add: maxWidth_def maxHeight_def b(1))
      ultimately show ?thesis using b(2,3) b(4)[OF hgt] by simp
    next
      case w1: False
      then have W1: "1 \<le> W" using W(1) by simp
      obtain a where a: "round64 (600 / W) = Num a" "\<bar>a - 600 / W\<bar> \<le> (600 / W) / 2 ^ 53"
        "2 powi (- 24) \<le> a" "600 < W \<Longrightarrow> a \<le> 1"
        by (rule quotient_rounded[OF W1 W(2) c6]) (rule that)
      show ?thesis
      proof (cases "H = 0")
        case h0: True
        then have wgt: "600 < W" using True gw gh by simp
        have "unat w \<noteq> 0" "unat h = 0" using w1 h0 zw zh by simp_all
        then have "q = 600 / W"
          unfolding q_def scaling_ratio_def W_def by (simp del: of_nat_unat)
        moreover have "min_number (div_number maxWidth (Num W)) (div_number maxHeight (Num H)) = Num a"
          using w1 h0 by (simp add: maxWidth_def maxHeight_def a(1))
        ultimately show ?thesis using a(2,3) a(4)[OF wgt] by simp
      next
        case h1: False
        then have H1: "1 \<le> H" using H(1) by simp
        obtain b where b: "round64 (400 / H) = Num b" "\<bar>b - 400 / H\<bar> \<le> (400 / H) / 2 ^ 53"
          "2 powi (- 24) \<le> b" "400 < H \<Longrightarrow> b \<le> 1"
          by (rule quotient_rounded[OF H1 H(2) c4]) (rule that)
        have "unat w \<noteq> 0" "unat h \<noteq> 0" using w1 h1 zw zh by simp_all
        then have "q = min (600 / W) (400 / H)"
          unfolding q_def scaling_ratio_def W_def H_def by (simp del: of_nat_unat)
        then have cl: "\<bar>min a b - q\<bar> \<le> q / 2 ^ 53" using min_close[OF a(2) b(2)] by simp
        have le1: "min a b \<le> 1" using a(4) b(4) True gw gh by (auto simp: min_def)
        have lo: "2 powi (- 24) \<le> min a b" using a(3) b(3) by (simp add: min_def)
        have "min_number (div_number maxWidth (Num W)) (div_number maxHeight (Num H)) = Num (min a b)"
          using w1 h1 by (simp add: maxWidth_def maxHeight_def a(1) b(1) min_number_Num
              del: min_number.simps)
        then show ?thesis using cl le1 lo by blast
      qed
    qed
    then obtain r where r: "min_number (div_number maxWidth (Num W)) (div_number maxHeight (Num H)) = Num r"
      "2 powi (- 24) \<le> r" "r \<le> 1" "\<bar>r - q\<bar> \<le> q / 2 ^ 53"
      by (elim exE conjE)
    obtain tw where tw: "round64 (W * r) = Num tw" "\<bar>tw - W * r\<bar> \<le> W * r / 2 ^ 53"
      by (rule product_rounded[OF W(1,2) r(2,3)])
    obtain th where th: "round64 (H * r) = Num th" "\<bar>th - H * r\<bar> \<le> H * r / 2 ^ 53"
      by (rule product_rounded[OF H(1,2) r(2,3)])
    have ew: "\<bar>tw - W * q\<bar> \<le> W * q * (1 / 2 ^ 52 + 1 / 2 ^ 106)"
      by (rule product_close[OF tw(2) r(4) W(3)])
    have eh: "\<bar>th - H * q\<bar> \<le> H * q * (1 / 2 ^ 52 + 1 / 2 ^ 106)"
      by (rule product_close[OF th(2) r(4) H(3)])
    have "targetSize \<lparr>width = Num W, height = Num H\<rparr> = \<lparr>width = Num tw, height = Num th\<rparr>"
    proof -
      have "gt_number (Num W) maxWidth \<or> gt_number (Num H) maxHeight"
        using True gw gh by (simp add: maxWidth_def maxHeight_def)
      then show ?thesis
        by (simp add: targetSize_def r(1) tw(1) th(1) Let_def del: gt_number.simps)
    qed
    then show ?thesis using True ew eh unfolding pol W_def[symmetric] H_def[symmetric]
      by (intro exI[of _ tw] exI[of _ th]) (simp only: if_True fst_conv snd_conv simp_thms)
  qed
qed

lemma target_size_examples:
  "targetSize \<lparr>width = Num 1200, height = Num 800\<rparr> = \<lparr>width = Num 600, height = Num 400\<rparr>"
  "targetSize \<lparr>width = Num 300, height = Num 200\<rparr> = \<lparr>width = Num 300, height = Num 200\<rparr>"
  "targetSize \<lparr>width = Num 800, height = Num 300\<rparr> = \<lparr>width = Num 600, height = Num 225\<rparr>"
  "targetSize \<lparr>width = Num 700, height = Num 4000\<rparr> = \<lparr>width = Num 70, height = Num 400\<rparr>"
  by (simp_all add: targetSize_def maxWidth_def maxHeight_def round64_half round64_600
      round64_400 round64_three_quarters round64_four_thirds round64_225
      round64_six_sevenths round64_tenth round64_width_700 round64_height_4000)

lemma scaling_policy_examples:
  "scaling_policy 1200 800 = (600, 400)"
  "scaling_policy 300 200 = (300, 200)"
  "scaling_policy 800 300 = (600, 225)"
  "scaling_policy 700 4000 = (70, 400)"
  by (simp_all add: scaling_policy_def scaling_ratio_def)

text \<open>
  C1, as the code has it: on the intrinsic dimensions of every image the size
  computed by \<open>addImageToCanvas\<close> is a pair of finite numbers; when the width
  exceeds 600 or the height 400, each is the value of the specification's policy
  (the dimension times the smaller of 600 / width and 400 / height) up to the
  rounding of the division and of the product, a relative error of at most
  \<open>1 / 2 ^ 52 + 1 / 2 ^ 106\<close>, and otherwise it is the intrinsic size unchanged.
  The examples are met exactly: 1200 by 800 gives 600 by 400, 300 by 200 gives
  300 by 200, 800 by 300 gives 600 by 225, and 700 by 4000, where the height
  decides the ratio, gives 70 by 400.
\<close>

theorem target_size_is_rounded_scaling_policy:
  fixes w h :: "32 word"
  shows "(\<exists>tw th.
     targetSize \<lparr>width = Num (of_nat (unat w)), height = Num (of_nat (unat h))\<rparr>
       = \<lparr>width = Num tw, height = Num th\<rparr> \<and>
     (if 600 < unat w \<or> 400 < unat h
      then \<bar>tw - fst (scaling_policy (unat w) (unat h))\<bar>
             \<le> fst (scaling_policy (unat w) (unat h)) * (1 / 2 ^ 52 + 1 / 2 ^ 106) \<and>
           \<bar>th - snd (scaling_policy (unat w) (unat h))\<bar>
             \<le> snd (scaling_policy (unat w) (unat h)) * (1 / 2 ^ 52 + 1 / 2 ^ 106)
      else tw = of_nat (unat w) \<and> th = of_nat (unat h))) \<and>
   targetSize \<lparr>width = Num 1200, height = Num 800\<rparr> = \<lparr>width = Num 600, height = Num 400\<rparr> \<and>
   scaling_policy 1200 800 = (600, 400) \<and>
   targetSize \<lparr>width = Num 300, height = Num 200\<rparr> = \<lparr>width = Num 300, height = Num 200\<rparr> \<and>
   scaling_policy 300 200 = (300, 200) \<and>
   targetSize \<lparr>width = Num 800, height = Num 300\<rparr> = \<lparr>width = Num 600, height = Num 225\<rparr> \<and>
   scaling_policy 800 300 = (600, 225) \<and>
   targetSize \<lparr>width = Num 700, height = Num 4000\<rparr> = \<lparr>width = Num 70, height = Num 400\<rparr> \<and>
   scaling_policy 700 4000 = (70, 400)"
  using target_size_general[of w h] target_size_examples scaling_policy_examples
  by (intro conjI)

text \<open>
  C1 as stated fails: on the intrinsic size 1 by 530 the exact policy gives 40 / 53
  by 400, and the code gives neither: its width is the binary64 value nearest to
  40 / 53 and its height is the binary64 value next above 400.
\<close>

theorem target_size_differs_from_exact_policy:
  "targetSize \<lparr>width = Num 1, height = Num 530\<rparr>
     = \<lparr>width = Num (3398943114996601 / 4503599627370496), height = Num (400 + 1 / 2 ^ 44)\<rparr> \<and>
   scaling_policy 1 530 = (40 / 53, 400) \<and>
   (3398943114996601 / 4503599627370496 :: rat) \<noteq> 40 / 53 \<and>
   (400 + 1 / 2 ^ 44 :: rat) \<noteq> 400"
  by (simp add: targetSize_def maxWidth_def maxHeight_def scaling_policy_def scaling_ratio_def
      round64_600 round64_ratio_530 round64_width_530 round64_height_530)

text \<open>
  C7, as the code has it: on a positive intrinsic size the two products are each
  rounded to binary64, so where the image is scaled down the target width is at most
  600 plus one unit in the last place and the target height at most 400 plus one
  unit in the last place, and the aspect ratio is kept up to rounding:
  the difference of target width times height and target height times width is at
  most width times height over \<open>2 ^ 52\<close>.
\<close>

theorem target_size_within_rounding:
  fixes w h :: "32 word"
  assumes pos: "0 < unat w" "0 < unat h"
  shows "\<exists>tw th.
     targetSize \<lparr>width = Num (of_nat (unat w)), height = Num (of_nat (unat h))\<rparr>
       = \<lparr>width = Num tw, height = Num th\<rparr> \<and>
     (600 < unat w \<or> 400 < unat h \<longrightarrow> tw \<le> 600 + 1 / 2 ^ 43 \<and> th \<le> 400 + 1 / 2 ^ 44) \<and>
     \<bar>tw * of_nat (unat h) - th * of_nat (unat w)\<bar> \<le> of_nat (unat w) * of_nat (unat h) / 2 ^ 52"
proof -
  define W :: rat where "W = of_nat (unat w)"
  define H :: rat where "H = of_nat (unat h)"
  note W = dimension_range[OF pos(1), folded W_def]
  note H = dimension_range[OF pos(2), folded H_def]
  have gw: "(600 < W) = (600 < unat w)"
    using of_nat_less_iff[of 600 "unat w", where ?'a = rat] by (simp add: W_def)
  have gh: "(400 < H) = (400 < unat h)"
    using of_nat_less_iff[of 400 "unat h", where ?'a = rat] by (simp add: H_def)
  show ?thesis
  proof (cases "600 < unat w \<or> 400 < unat h")
    case False
    then have "targetSize \<lparr>width = Num W, height = Num H\<rparr> = \<lparr>width = Num W, height = Num H\<rparr>"
      using gw gh by (simp add: targetSize_def maxWidth_def maxHeight_def)
    then show ?thesis using False W H unfolding W_def H_def by (intro exI[of _ W] exI[of _ H]) (simp add: W_def H_def)
  next
    case True
    have c6: "(400::rat) \<le> 600" "(600::rat) \<le> 600" "(0::rat) < 600"
      and c4: "(400::rat) \<le> 400" "(400::rat) \<le> 600" "(0::rat) < 400" by simp_all
    obtain a where a: "round64 (600 / W) = Num a" "\<bar>a - 600 / W\<bar> \<le> (600 / W) / 2 ^ 53"
      "2 powi (- 24) \<le> a" "600 < W \<Longrightarrow> a \<le> 1"
      by (rule quotient_rounded[OF W c6(1,2)]) (rule that)
    obtain b where b: "round64 (400 / H) = Num b" "\<bar>b - 400 / H\<bar> \<le> (400 / H) / 2 ^ 53"
      "2 powi (- 24) \<le> b" "400 < H \<Longrightarrow> b \<le> 1"
      by (rule quotient_rounded[OF H c4(1,2)]) (rule that)
    define r where "r = min a b"
    have r: "2 powi (- 24) \<le> r" "r \<le> a" "r \<le> b" "r \<le> 1"
      using a(3,4) b(3,4) True gw gh by (auto simp: r_def min_def)
    obtain tw where tw: "round64 (W * r) = Num tw" "\<bar>tw - W * r\<bar> \<le> W * r / 2 ^ 53"
      "\<And>m k. (600::rat) + 600 / 2 ^ 53 \<le> of_int m * 2 powi (k - 52) \<Longrightarrow> 2 ^ 52 \<le> m \<Longrightarrow> m < 2 ^ 53 \<Longrightarrow>
         tw \<le> of_int m * 2 powi (k - 52)"
      by (rule scaled_dimension[OF W r(1,2,4) a(2) c6(3)]) (rule that)
    obtain th where th: "round64 (H * r) = Num th" "\<bar>th - H * r\<bar> \<le> H * r / 2 ^ 53"
      "\<And>m k. (400::rat) + 400 / 2 ^ 53 \<le> of_int m * 2 powi (k - 52) \<Longrightarrow> 2 ^ 52 \<le> m \<Longrightarrow> m < 2 ^ 53 \<Longrightarrow>
         th \<le> of_int m * 2 powi (k - 52)"
      by (rule scaled_dimension[OF H r(1,3,4) b(2) c4(3)]) (rule that)
    have "tw \<le> of_int 5277655813324801 * 2 powi (9 - 52)" by (rule tw(3)) simp_all
    then have tw_le: "tw \<le> 600 + 1 / 2 ^ 43" by simp
    have "th \<le> of_int 7036874417766401 * 2 powi (8 - 52)" by (rule th(3)) simp_all
    then have th_le: "th \<le> 400 + 1 / 2 ^ 44" by simp
    have Wpos: "0 < W" and Hpos: "0 < H" using W(1) H(1) by linarith+
    have rpos: "0 < r" using r(1) zero_less_power_int[of "2::rat" "- 24"] by linarith
    have "tw * H - th * W = (tw - W * r) * H - (th - H * r) * W" by (simp add: algebra_simps)
    then have "\<bar>tw * H - th * W\<bar> \<le> \<bar>tw - W * r\<bar> * H + \<bar>th - H * r\<bar> * W"
      using Wpos Hpos abs_triangle_ineq4[of "(tw - W * r) * H" "(th - H * r) * W"]
      by (simp add: abs_mult)
    also have "\<dots> \<le> (W * r / 2 ^ 53) * H + (H * r / 2 ^ 53) * W"
      using tw(2) th(2) Wpos Hpos by (intro add_mono mult_right_mono) auto
    also have "\<dots> = (W * H / 2 ^ 52) * r" by (simp add: field_simps)
    also have "\<dots> \<le> (W * H / 2 ^ 52) * 1"
      using r(4) Wpos Hpos by (intro mult_left_mono) auto
    finally have aspect: "\<bar>tw * H - th * W\<bar> \<le> W * H / 2 ^ 52" by simp
    have Wn: "W \<noteq> 0" and Hn: "H \<noteq> 0" using Wpos Hpos by auto
    have "targetSize \<lparr>width = Num W, height = Num H\<rparr> = \<lparr>width = Num tw, height = Num th\<rparr>"
      using True gw gh Wn Hn
      by (simp add: targetSize_def maxWidth_def maxHeight_def a(1) b(1) min_number_Num
          r_def[symmetric] tw(1) th(1) del: min_number.simps)
    then show ?thesis using tw_le th_le aspect unfolding W_def H_def by blast
  qed
qed

theorem target_size_within_rounding_witness:
  "0 < unat (1101 :: 32 word) \<and> 0 < unat (1 :: 32 word) \<and>
   (\<exists>tw th. targetSize \<lparr>width = Num 1101, height = Num 1\<rparr> = \<lparr>width = Num tw, height = Num th\<rparr> \<and>
      tw \<le> 600 + 1 / 2 ^ 43 \<and> th \<le> 400 + 1 / 2 ^ 44 \<and>
      \<bar>tw * 1 - th * 1101\<bar> \<le> 1101 * 1 / 2 ^ 52)"
  using target_size_within_rounding[of 1101 1] by simp

text \<open>
  C7 as stated fails: the intrinsic size 1101 by 1 is scaled down to a width above
  600, and target width times height differs from target height times width.
\<close>

theorem target_width_exceeds_600:
  "targetSize \<lparr>width = Num 1101, height = Num 1\<rparr>
     = \<lparr>width = Num (600 + 1 / 2 ^ 43), height = Num (306784715760933 / 562949953421312)\<rparr> \<and>
   (600 :: rat) < 600 + 1 / 2 ^ 43 \<and>
   (600 + 1 / 2 ^ 43) * 1 \<noteq> (306784715760933 / 562949953421312) * (1101 :: rat)"
  by (simp add: targetSize_def maxWidth_def maxHeight_def round64_ratio_1101 round64_400
      round64_width_1101 round64_height_1101)

text \<open>
  C2 on the code: when the image does not load, the promise of
  \<open>getImageDimensions\<close> stays pending, so \<open>addImageToCanvas\<close> never gets past its
  \<open>await\<close>: nothing is created or changed, and nothing is logged either.
\<close>

theorem broken_image_never_settles:
  "addImageToCanvas api (decode(imageUrl := Broken)) imageUrl s = (Pending, s)"
  by (simp add: addImageToCanvas_def)

text \<open>The handler of the function is reached by an exception of the editor.\<close>

lemma addElement_exception_is_logged:
  assumes "decode imageUrl = Loaded w h"
    and "\<And>el. addElement api el (store s) = Inl e"
  shows "addImageToCanvas api decode imageUrl s =
     (Fulfilled (), s\<lparr>console := console s @ [(ascii ''Error adding image to canvas:'', e)]\<rparr>)"
  using assms by (simp add: addImageToCanvas_def console_error_def Let_def)

section \<open>Properties of the file reader's callback\<close>

text \<open>
  C5 on the code: two files read in the same millisecond, with random draws that
  differ by less than the spacing of binary64 at the clock's value, are given the
  same id by \<open>Date.now() + Math.random()\<close>, and both are in the collection: the
  ids are not unique.
\<close>

theorem two_uploads_with_one_id:
  "contents
     (reader_onload 1700000000000 (1 / 2 + 1 / 2 ^ 20) (ascii ''b.png'') (ascii ''data:b'')
       (reader_onload 1700000000000 (1 / 2) (ascii ''a.png'') (ascii ''data:a'') init_manager))
   = [Rec \<lparr>id_upload = Num (3400000000001 / 2), name = ascii ''a.png'', url = ascii ''data:a''\<rparr>,
      Rec \<lparr>id_upload = Num (3400000000001 / 2), name = ascii ''b.png'', url = ascii ''data:b''\<rparr>] \<and>
   \<not> distinct (ids (contents
     (reader_onload 1700000000000 (1 / 2 + 1 / 2 ^ 20) (ascii ''b.png'') (ascii ''data:b'')
       (reader_onload 1700000000000 (1 / 2) (ascii ''a.png'') (ascii ''data:a'') init_manager))))"
proof -
  have c: "contents
     (reader_onload 1700000000000 (1 / 2 + 1 / 2 ^ 20) (ascii ''b.png'') (ascii ''data:b'')
       (reader_onload 1700000000000 (1 / 2) (ascii ''a.png'') (ascii ''data:a'') init_manager))
   = [Rec \<lparr>id_upload = Num (3400000000001 / 2), name = ascii ''a.png'', url = ascii ''data:a''\<rparr>,
      Rec \<lparr>id_upload = Num (3400000000001 / 2), name = ascii ''b.png'', url = ascii ''data:b''\<rparr>]"
    by (simp add: reader_onload_def contents_addUpload round64_clock_half round64_clock_half')
      (simp add: contents_def getUploads_def init_manager_def)
  show ?thesis unfolding c by simp
qed

text \<open>One removal by that id then takes both records away.\<close>

lemma deleteUpload_removes_both:
  "\<exists>s'. deleteUpload (Num (3400000000001 / 2))
     (reader_onload 1700000000000 (1 / 2 + 1 / 2 ^ 20) (ascii ''b.png'') (ascii ''data:b'')
       (reader_onload 1700000000000 (1 / 2) (ascii ''a.png'') (ascii ''data:a'') init_manager))
     = Inr s' \<and> contents s' = []"
proof -
  let ?s = "reader_onload 1700000000000 (1 / 2 + 1 / 2 ^ 20) (ascii ''b.png'') (ascii ''data:b'')
       (reader_onload 1700000000000 (1 / 2) (ascii ''a.png'') (ascii ''data:a'') init_manager)"
  have c: "contents ?s
   = [Rec \<lparr>id_upload = Num (3400000000001 / 2), name = ascii ''a.png'', url = ascii ''data:a''\<rparr>,
      Rec \<lparr>id_upload = Num (3400000000001 / 2), name = ascii ''b.png'', url = ascii ''data:b''\<rparr>]"
    by (simp add: reader_onload_def contents_addUpload round64_clock_half round64_clock_half')
      (simp add: contents_def getUploads_def init_manager_def)
  have r: "list_all is_record (contents ?s)" unfolding c by simp
  from deleteUpload_records[OF r, of "Num (3400000000001 / 2)"] obtain s'
    where d: "deleteUpload (Num (3400000000001 / 2)) ?s = Inr s'" by blast
  have "contents s' = []"
    using contents_deleteUpload[OF d] unfolding c by simp
  then show ?thesis using d by blast
qed

section \<open>Properties of the download button\<close>

lemma trim_blank: "list_all isWhiteSpace s \<Longrightarrow> trim s = []"
proof -
  assume "list_all isWhiteSpace s"
  then have "dropWhile isWhiteSpace s = []" by (induction s) simp_all
  then show ?thesis by (simp only: trim_def rev.simps dropWhile.simps)
qed

text \<open>
  C9: when the name is empty or has white space only, \<open>handleDownload\<close> calls
  \<open>alert\<close> and returns; it asks the editor for no image, creates no link and
  starts no download.
\<close>

theorem handleDownload_blank_name:
  assumes "list_all isWhiteSpace (imageName s)"
  shows "handleDownload api s =
       (Fulfilled (), s\<lparr>alerts := alerts s @ [ascii ''Please enter an image name'']\<rparr>) \<and>
     links (snd (handleDownload api s)) = links s \<and>
     downloads (snd (handleDownload api s)) = downloads s \<and>
     isDownloading (snd (handleDownload api s)) = isDownloading s"
  using trim_blank[OF assms] by (simp add: handleDownload_def)

theorem handleDownload_blank_name_witness:
  "list_all isWhiteSpace [0x20, 0x09, 0xA0] \<and>
   snd (handleDownload
      \<lparr>addElement = (\<lambda>el ed. Inl TypeError), selectElements = (\<lambda>els ed. Inr ed),
        toDataURL = (\<lambda>ed. Fulfilled (ascii ''data:x''))\<rparr>
      \<lparr>uploadsManager = init_manager, store = (), console = [], alerts = [],
        imageName = [0x20, 0x09, 0xA0], isDownloading = False, links = 0, downloads = []\<rparr>)
   = \<lparr>uploadsManager = init_manager, store = (), console = [],
      alerts = [ascii ''Please enter an image name''],
      imageName = [0x20, 0x09, 0xA0], isDownloading = False, links = 0, downloads = []\<rparr>"
proof -
  have h: "list_all isWhiteSpace [0x20, 0x09, 0xA0]"
    by (simp add: isWhiteSpace_def)
  from handleDownload_blank_name[of
      "\<lparr>uploadsManager = init_manager, store = (), console = [], alerts = [],
        imageName = [0x20, 0x09, 0xA0], isDownloading = False, links = 0, downloads = []\<rparr>"
      "\<lparr>addElement = (\<lambda>el ed. Inl TypeError), selectElements = (\<lambda>els ed. Inr ed),
        toDataURL = (\<lambda>ed. Fulfilled (ascii ''data:x''))\<rparr>"] h
  show ?thesis by simp
qed


end
